theory Spec2Isabelle
  imports
    Main
    "HOL-Library.Multiset"
    "HOL-Library.AList"
    "HOL-Library.Product_Lexorder"
    "HOL-Library.List_Lexorder"
    "HOL-Library.Char_ord"
begin

section \<open>Python values used by bktree.py\<close>

text \<open>
  The exceptions that the modelled code can raise. \<open>TypeError\<close> is what unpacking
  \<^verbatim>\<open>None\<close> raises, \<open>StopIteration\<close> what \<^verbatim>\<open>next\<close> raises on an exhausted iterator,
  \<open>ValueError\<close> what \<^verbatim>\<open>int\<close> raises on a string that is no numeral, \<open>OSError\<close> what
  \<^verbatim>\<open>open\<close> raises.
\<close>

datatype error = TypeError | StopIteration | ValueError | OSError

subsection \<open>\<^verbatim>\<open>str\<close> and \<^verbatim>\<open>int\<close> on distances\<close>

text \<open>
  The children of a node are keyed by \<^verbatim>\<open>str(distance)\<close>: the decimal numeral of an
  integer, with a leading minus sign when it is negative.
\<close>

definition digit_char :: "nat \<Rightarrow> char" where
  "digit_char d = char_of (48 + d)"

fun str_nat :: "nat \<Rightarrow> string" where
  "str_nat n = (if n < 10 then [digit_char n] else str_nat (n div 10) @ [digit_char (n mod 10)])"

declare str_nat.simps [simp del]

definition py_str :: "int \<Rightarrow> string" where
  "py_str i = (if i < 0 then CHR ''-'' # str_nat (nat (- i)) else str_nat (nat i))"

text \<open>
  \<^verbatim>\<open>int(d)\<close> on a key, as \<open>find\<close> calls it, for base 10: white space around the numeral is
  skipped, then comes an optional sign, then one or more digits, where a single
  underscore may stand between two digits; anything else raises \<open>ValueError\<close>. A \<open>char\<close>
  stands for the code point of the same number (below 256); among these \<^verbatim>\<open>int\<close> skips
  the code points 9 to 13, 32, 133 and 160 as white space, and only 0 to 9 are decimal
  digits. (The limit that newer interpreters put on the number of digits, 4300 unless
  configured otherwise, is a setting of the interpreter and not modelled.)
\<close>

definition is_space :: "char \<Rightarrow> bool" where
  "is_space c =
     (let n = (of_char c :: nat)
      in (9 \<le> n \<and> n \<le> 13) \<or> n = 32 \<or> n = 133 \<or> n = 160)"

definition strip :: "string \<Rightarrow> string" where
  "strip s = rev (dropWhile is_space (rev (dropWhile is_space s)))"

definition is_digit :: "char \<Rightarrow> bool" where
  "is_digit c = (48 \<le> (of_char c :: nat) \<and> (of_char c :: nat) \<le> 57)"

definition digit_val :: "char \<Rightarrow> nat" where
  "digit_val c = of_char c - 48"

fun digit_groups :: "string \<Rightarrow> string option" where
  "digit_groups [] = None"
| "digit_groups [c] = (if is_digit c then Some [c] else None)"
| "digit_groups (c # d # rest) =
     (if is_digit c then
        map_option (Cons c) (if d = CHR ''_'' then digit_groups rest else digit_groups (d # rest))
      else None)"

definition nat_of_digits :: "string \<Rightarrow> error + nat" where
  "nat_of_digits ds =
     (case digit_groups ds of
        None \<Rightarrow> Inl ValueError
      | Some digits \<Rightarrow> Inr (foldl (\<lambda>a c. 10 * a + digit_val c) 0 digits))"

definition py_int :: "string \<Rightarrow> error + int" where
  "py_int s =
     (case strip s of
        [] \<Rightarrow> Inl ValueError
      | c # cs \<Rightarrow>
          if c = CHR ''-'' then map_sum id (\<lambda>m. - int m) (nat_of_digits cs)
          else if c = CHR ''+'' then map_sum id int (nat_of_digits cs)
          else map_sum id int (nat_of_digits (c # cs)))"

section \<open>The tree\<close>

text \<open>
  A node is the pair \<^verbatim>\<open>(word, children)\<close>; \<^verbatim>\<open>children\<close> is a dict from \<^verbatim>\<open>str(distance)\<close>
  to nodes. A Python dict keeps its keys in insertion order, which \<open>find\<close> observes
  through \<^verbatim>\<open>children.items()\<close>, so the dict is an association list: \<open>map_of\<close> is
  \<^verbatim>\<open>children.get\<close> and \<open>AList.update\<close> is \<^verbatim>\<open>children[k] = v\<close> (a new key goes to the end,
  an old key keeps its place). Every unpacking \<^verbatim>\<open>a, b = node\<close> of the source treats a
  two-element list like a pair, so \<open>Node\<close> stands for both.
\<close>

datatype node = Node (node_word: string) (node_children: "(string \<times> node) list")

record bktree =
  distance_func :: "string \<Rightarrow> string \<Rightarrow> int"
  tree :: "node option"

lemma size_child:
  "(k, c) \<in> set cs \<Longrightarrow> size c < Suc (size_list (size_prod (\<lambda>x. 0) size) cs)"
  by (induction cs) auto

subsection \<open>\<open>add_word\<close>\<close>

text \<open>
  The \<^verbatim>\<open>while True\<close> loop of \<open>add_word\<close>, started at a node. The source mutates the
  dict of the node where the walk ends; the tree owns its nodes exclusively, so the
  model rebuilds the path from the root to that node.
\<close>

function add_loop :: "(string \<Rightarrow> string \<Rightarrow> int) \<Rightarrow> string \<Rightarrow> node \<Rightarrow> node" where
  "add_loop df w (Node parent children) =
     (let distance = df w parent in
      case map_of children (py_str distance) of
        None \<Rightarrow> Node parent (AList.update (py_str distance) (Node w []) children)
      | Some nd \<Rightarrow> Node parent (AList.update (py_str distance) (add_loop df w nd) children))"
  by pat_completeness auto
termination
  by (relation "measure (\<lambda>(df, w, t). size t)") (auto dest!: map_of_SomeD size_child)

definition add_word :: "string \<Rightarrow> bktree \<Rightarrow> bktree" where
  "add_word w self =
     (case tree self of
        None \<Rightarrow> self\<lparr>tree := Some (Node w [])\<rparr>
      | Some nd \<Rightarrow> self\<lparr>tree := Some (add_loop (distance_func self) w nd)\<rparr>)"

subsection \<open>Construction\<close>

text \<open>
  The \<^verbatim>\<open>words\<close> argument of the constructor: a list, or an iterator that yields the
  given words (a generator, a \<^verbatim>\<open>filter\<close> object such as \<^verbatim>\<open>dict_words()\<close> returns, ...).
  A list is truthy when it is not empty; an iterator object is always truthy.
\<close>

datatype word_source = ListWords "string list" | IterWords "string list"

fun truthy :: "word_source \<Rightarrow> bool" where
  "truthy (ListWords ws) = (ws \<noteq> [])"
| "truthy (IterWords ws) = True"

fun items_of :: "word_source \<Rightarrow> string list" where
  "items_of (ListWords ws) = ws"
| "items_of (IterWords ws) = ws"

definition init :: "(string \<Rightarrow> string \<Rightarrow> int) \<Rightarrow> word_source \<Rightarrow> error + bktree" where
  "init df words =
     (let self = \<lparr>distance_func = df, tree = None\<rparr> in
      if truthy words then
        (case items_of words of
           [] \<Rightarrow> Inl StopIteration
         | root # it \<Rightarrow> Inr (foldl (\<lambda>s i. add_word i s) (self\<lparr>tree := Some (Node root [])\<rparr>) it))
      else Inr self)"

subsection \<open>\<open>query\<close>\<close>

function rec :: "(string \<Rightarrow> string \<Rightarrow> int) \<Rightarrow> string \<Rightarrow> int \<Rightarrow> node \<Rightarrow> (int \<times> string) list" where
  "rec df w n (Node p_word children) =
     (let distance = df w p_word;
          results = (if distance \<le> n then [(distance, p_word)] else [])
      in results @ concat (map (\<lambda>i. case map_of children (py_str i) of
                                        None \<Rightarrow> []
                                      | Some child \<Rightarrow> rec df w n child)
                               [distance - n .. distance + n]))"
  by pat_completeness auto
termination
  by (relation "measure (\<lambda>(df, w, n, t). size t)") (auto dest!: map_of_SomeD size_child)

text \<open>
  \<open>query\<close> returns its result (or the exception it raises) and the object after the
  call. \<^verbatim>\<open>sorted\<close> orders the pairs \<^verbatim>\<open>(distance, word)\<close> lexicographically, words by
  code point. On the empty tree \<^verbatim>\<open>rec(None)\<close> fails to unpack \<^verbatim>\<open>None\<close>.
\<close>

definition query :: "bktree \<Rightarrow> string \<Rightarrow> int \<Rightarrow> (error + (int \<times> string) list) \<times> bktree" where
  "query self w n =
     (case tree self of
        None \<Rightarrow> (Inl TypeError, self)
      | Some root \<Rightarrow> (Inr (sort (rec (distance_func self) w n root)), self))"

subsection \<open>\<open>find\<close>\<close>

text \<open>
  The generator \<^verbatim>\<open>(c for d, c in children.items() if lower <= int(d) <= upper)\<close>:
  \<^verbatim>\<open>int(d)\<close> is evaluated for every key, in dict order.
\<close>

fun select_children :: "int \<Rightarrow> int \<Rightarrow> (string \<times> node) list \<Rightarrow> error + node list" where
  "select_children lower upper [] = Inr []"
| "select_children lower upper ((d, c) # rest) =
     (case py_int d of
        Inl e \<Rightarrow> Inl e
      | Inr k \<Rightarrow>
          (case select_children lower upper rest of
             Inl e \<Rightarrow> Inl e
           | Inr cs \<Rightarrow> Inr (if lower \<le> k \<and> k \<le> upper then c # cs else cs)))"

lemma select_children_size:
  "select_children lower upper cs = Inr sel \<Longrightarrow>
   sum_list (map size sel) \<le> size_list (size_prod (\<lambda>x. 0) size) cs"
  by (induction cs arbitrary: sel) (auto split: sum.splits if_splits)

text \<open>The \<^verbatim>\<open>while candidates\<close> loop: \<open>candidates\<close> is the deque, \<open>found\<close> the result list.\<close>

function find_loop ::
  "(string \<Rightarrow> string \<Rightarrow> int) \<Rightarrow> string \<Rightarrow> int \<Rightarrow> node list \<Rightarrow> (int \<times> string) list
   \<Rightarrow> error + (int \<times> string) list" where
  "find_loop df item n [] found = Inr found"
| "find_loop df item n (Node candidate children # candidates) found =
     (let distance = df candidate item;
          found' = (if distance \<le> n then found @ [(distance, candidate)] else found)
      in if children \<noteq> [] then
           (case select_children (distance - n) (distance + n) children of
              Inl e \<Rightarrow> Inl e
            | Inr cs \<Rightarrow> find_loop df item n (candidates @ cs) found')
         else find_loop df item n candidates found')"
  by pat_completeness auto
termination
  by (relation "measure (\<lambda>(df, item, n, candidates, found). sum_list (map size candidates))")
     (auto dest!: select_children_size)

definition find_items :: "bktree \<Rightarrow> string \<Rightarrow> int \<Rightarrow> (error + (int \<times> string) list) \<times> bktree" where
  "find_items self item n =
     (case tree self of
        None \<Rightarrow> (Inr [], self)
      | Some root \<Rightarrow>
          (map_sum id (sort_key fst) (find_loop (distance_func self) item n [root] []), self))"

section \<open>The Levenshtein distance\<close>

text \<open>
  One pass of the \<^verbatim>\<open>for s in source\<close> loop over the numpy rows. Each of the two
  assignments to \<^verbatim>\<open>current_row[1:]\<close> computes its whole right-hand side from the row as
  it is before the assignment.
\<close>

definition lev_step :: "string \<Rightarrow> int list \<Rightarrow> char \<Rightarrow> int list" where
  "lev_step target previous_row s =
     (let current_row = map (\<lambda>x. x + 1) previous_row;
          current_row =
            take 1 current_row @
            map2 min (drop 1 current_row)
              (map2 (+) (butlast previous_row) (map (\<lambda>t. if t \<noteq> s then 1 else 0) target));
          current_row =
            take 1 current_row @
            map2 min (drop 1 current_row) (map (\<lambda>x. x + 1) (butlast current_row))
      in current_row)"

function levenshtein :: "string \<Rightarrow> string \<Rightarrow> int" where
  "levenshtein source target =
     (if length source < length target then levenshtein target source
      else if length target = 0 then int (length source)
      else last (foldl (lev_step target) (map int [0 ..< length target + 1]) source))"
  by pat_completeness auto
termination
  by (relation "measure (\<lambda>(source, target). if length source < length target then 1 else 0)") auto

declare levenshtein.simps [simp del]

section \<open>Persistence\<close>

text \<open>
  The files that \<^verbatim>\<open>open\<close> sees: the working directory, the content of each existing path,
  and which paths can be opened for writing. The type \<open>'txt\<close> is the text of a file.
\<close>

record 'txt filesystem =
  cwd :: string
  files :: "string \<rightharpoonup> 'txt"
  writable :: "string \<Rightarrow> bool"

text \<open>\<^verbatim>\<open>os.path.join\<close> of a directory and a file name.\<close>

definition path_join :: "string \<Rightarrow> string \<Rightarrow> string" where
  "path_join a b = (if a = [] \<or> last a = CHR ''/'' then a @ b else a @ ''/'' @ b)"

text \<open>
  The first lines of both methods: \<^verbatim>\<open>if not file_path\<close> holds for \<^verbatim>\<open>None\<close> and for the empty
  string, and the path is then \<^verbatim>\<open>tree.json\<close> in the working directory.
\<close>

definition resolve_path :: "string option \<Rightarrow> 'txt filesystem \<Rightarrow> string" where
  "resolve_path file_path fs =
     (case file_path of
        None \<Rightarrow> path_join (cwd fs) ''tree.json''
      | Some p \<Rightarrow> if p = [] then path_join (cwd fs) ''tree.json'' else p)"

text \<open>
  \<^verbatim>\<open>json.dumps\<close> and \<^verbatim>\<open>json.loads\<close> belong to Python's standard library, not to this
  repository; they are the parameters \<open>dumps\<close> and \<open>loads\<close>. \<open>save_to_file\<close> writes
  \<^verbatim>\<open>json.dumps(self.tree)\<close> at the path, or raises when \<^verbatim>\<open>open\<close> does; it leaves the object
  alone. \<open>load_from_file\<close> raises when the file is missing or \<^verbatim>\<open>json.loads\<close> raises, and
  otherwise replaces \<^verbatim>\<open>self.tree\<close>. (A JSON text that is no tree is outside \<open>node option\<close>.)
\<close>

definition save_to_file ::
  "(node option \<Rightarrow> 'txt) \<Rightarrow> bktree \<Rightarrow> string option \<Rightarrow> 'txt filesystem \<Rightarrow> error + 'txt filesystem" where
  "save_to_file dumps self file_path fs =
     (let file_path = resolve_path file_path fs in
      if writable fs file_path
      then Inr (fs\<lparr>files := (files fs)(file_path \<mapsto> dumps (tree self))\<rparr>)
      else Inl OSError)"

definition load_from_file ::
  "('txt \<Rightarrow> error + node option) \<Rightarrow> bktree \<Rightarrow> string option \<Rightarrow> 'txt filesystem \<Rightarrow> error + bktree" where
  "load_from_file loads self file_path fs =
     (let file_path = resolve_path file_path fs in
      case files fs file_path of
        None \<Rightarrow> Inl OSError
      | Some text \<Rightarrow>
          (case loads text of
             Inl e \<Rightarrow> Inl e
           | Inr t \<Rightarrow> Inr (self\<lparr>tree := t\<rparr>)))"

section \<open>Specification vocabulary\<close>

text \<open>The words stored in a (sub)tree, the root's first, then each child's in dict order.\<close>

fun stored_words :: "node \<Rightarrow> string list" where
  "stored_words (Node p cs) = p # concat (map (\<lambda>kc. stored_words (snd kc)) cs)"

text \<open>
  The contract on \<open>distance_func\<close> that the pruning relies on: symmetry and the triangle
  inequality.
\<close>

definition symmetric :: "(string \<Rightarrow> string \<Rightarrow> int) \<Rightarrow> bool" where
  "symmetric df = (\<forall>a b. df a b = df b a)"

definition triangle :: "(string \<Rightarrow> string \<Rightarrow> int) \<Rightarrow> bool" where
  "triangle df = (\<forall>a b c. df a c \<le> df a b + df b c)"

text \<open>
  The shape that \<open>add_word\<close> maintains: the keys of a dict are distinct, and every word
  stored below the child under key \<open>k\<close> of a node with word \<open>p\<close> has \<open>str(distance_func(x, p)) = k\<close>.
\<close>

fun keyed :: "(string \<Rightarrow> string \<Rightarrow> int) \<Rightarrow> node \<Rightarrow> bool" where
  "keyed df (Node p cs) =
     (distinct (map fst cs) \<and>
      (\<forall>kc \<in> set cs. (\<forall>x \<in> set (stored_words (snd kc)). py_str (df x p) = fst kc) \<and> keyed df (snd kc)))"

text \<open>
  The brute-force answer to a radius query over a list of words, in the order of the
  list: every word within distance \<open>n\<close> of \<open>w\<close>, paired with that distance.
\<close>

definition matches :: "(string \<Rightarrow> string \<Rightarrow> int) \<Rightarrow> string \<Rightarrow> int \<Rightarrow> string list \<Rightarrow> (int \<times> string) list" where
  "matches df w n ws = map (\<lambda>s. (df w s, s)) (filter (\<lambda>s. df w s \<le> n) ws)"

text \<open>The words stored in the tree of an object; none when the tree is empty.\<close>

definition words_of :: "bktree \<Rightarrow> string list" where
  "words_of self = (case tree self of None \<Rightarrow> [] | Some root \<Rightarrow> stored_words root)"

text \<open>
  The objects that the class can produce with distance function \<open>df\<close>: the constructor
  makes one, and \<open>add_word\<close>, \<open>query\<close> and \<open>find\<close> lead from one to the next.
\<close>

inductive reachable :: "(string \<Rightarrow> string \<Rightarrow> int) \<Rightarrow> bktree \<Rightarrow> bool" for df where
  by_init: "init df words = Inr self \<Longrightarrow> reachable df self"
| by_add_word: "reachable df self \<Longrightarrow> reachable df (add_word w self)"
| by_query: "reachable df self \<Longrightarrow> reachable df (snd (query self w n))"
| by_find: "reachable df self \<Longrightarrow> reachable df (snd (find_items self item n))"

text \<open>
  The child-key invariant: a child with word \<open>c\<close> of a node with word \<open>p\<close> sits under the
  key \<open>str(distance_func(p, c))\<close>.
\<close>

fun exact_keys :: "(string \<Rightarrow> string \<Rightarrow> int) \<Rightarrow> node \<Rightarrow> bool" where
  "exact_keys df (Node p cs) =
     (\<forall>kc \<in> set cs. fst kc = py_str (df p (node_word (snd kc))) \<and> exact_keys df (snd kc))"

definition child_key_invariant :: "bktree \<Rightarrow> bool" where
  "child_key_invariant self =
     (case tree self of None \<Rightarrow> True | Some root \<Rightarrow> exact_keys (distance_func self) root)"

text \<open>An object whose tree is keyed by its own distance function.\<close>

definition keyed_tree :: "(string \<Rightarrow> string \<Rightarrow> int) \<Rightarrow> bktree \<Rightarrow> bool" where
  "keyed_tree df self =
     (distance_func self = df \<and> (case tree self of None \<Rightarrow> True | Some root \<Rightarrow> keyed df root))"

text \<open>
  The key that \<open>add_word\<close> writes: the value of \<^verbatim>\<open>str(distance)\<close> when its loop reaches
  \<^verbatim>\<open>children[str(distance)] = (word, {})\<close>. It follows the walk of \<open>add_loop\<close>.
\<close>

function landing_key :: "(string \<Rightarrow> string \<Rightarrow> int) \<Rightarrow> string \<Rightarrow> node \<Rightarrow> string" where
  "landing_key df w (Node parent children) =
     (let distance = df w parent in
      case map_of children (py_str distance) of
        None \<Rightarrow> py_str distance
      | Some nd \<Rightarrow> landing_key df w nd)"
  by pat_completeness auto
termination
  by (relation "measure (\<lambda>(df, w, t). size t)") (auto dest!: map_of_SomeD size_child)

text \<open>Every dict entry \<open>(key, child)\<close> of a tree, at any depth.\<close>

fun entries :: "node \<Rightarrow> (string \<times> node) list" where
  "entries (Node p cs) = cs @ concat (map (\<lambda>kc. entries (snd kc)) cs)"

subsection \<open>Example objects\<close>

text \<open>The discrete metric, and the tree that the constructor builds from a, b, c with it.\<close>

definition discrete :: "string \<Rightarrow> string \<Rightarrow> int" where
  "discrete a b = (if a = b then 0 else 1)"

definition abc_tree :: bktree where
  "abc_tree = \<lparr>distance_func = discrete,
               tree = Some (Node ''a'' [(''1'', Node ''b'' [(''1'', Node ''c'' [])])])\<rparr>"


text \<open>The tree after \<^verbatim>\<open>BKTree(levenshtein, ["book", "books"])\<close>.\<close>

definition books_tree :: bktree where
  "books_tree = \<lparr>distance_func = levenshtein, tree = Some (Node ''book'' [(''1'', Node ''books'' [])])\<rparr>"

text \<open>
  The words of the round-trip example, the tree that the constructor builds from them
  with \<open>levenshtein\<close>, and a file system with no files in which every path is writable.
\<close>

definition book_words :: "string list" where
  "book_words = [''book'', ''books'', ''cook'', ''booze'', ''cake'']"

definition five_tree :: bktree where
  "five_tree = \<lparr>distance_func = levenshtein,
     tree = Some (Node ''book''
       [(''1'', Node ''books'' [(''2'', Node ''cook'' [])]),
        (''2'', Node ''booze'' []),
        (''4'', Node ''cake'' [])])\<rparr>"

definition scratch_fs :: "(node option) filesystem" where
  "scratch_fs = \<lparr>cwd = ''/tmp'', files = Map.empty, writable = (\<lambda>p. True)\<rparr>"

section \<open>\<^verbatim>\<open>str\<close> and \<^verbatim>\<open>int\<close> are inverse on distances\<close>

lemma of_char_digit_char: "d < 10 \<Longrightarrow> (of_char (digit_char d) :: nat) = 48 + d"
  by (simp add: digit_char_def)

lemma is_digit_digit_char: "d < 10 \<Longrightarrow> is_digit (digit_char d)"
  by (simp add: is_digit_def of_char_digit_char)

lemma digit_val_digit_char: "d < 10 \<Longrightarrow> digit_val (digit_char d) = d"
  by (simp add: digit_val_def of_char_digit_char)

lemma str_nat_digits: "list_all is_digit (str_nat n) \<and> str_nat n \<noteq> []"
  by (induction n rule: str_nat.induct) (subst (1 2) str_nat.simps, simp add: is_digit_digit_char)

lemma str_nat_value: "foldl (\<lambda>a c. 10 * a + digit_val c) 0 (str_nat n) = n"
  by (induction n rule: str_nat.induct) (subst str_nat.simps, simp add: digit_val_digit_char)

lemma is_digit_plain:
  "is_digit c \<Longrightarrow> c \<noteq> CHR ''-'' \<and> c \<noteq> CHR ''+'' \<and> c \<noteq> CHR ''_'' \<and> \<not> is_space c"
  by (auto simp: is_digit_def is_space_def Let_def)

lemma digit_groups_digits: "ds \<noteq> [] \<Longrightarrow> list_all is_digit ds \<Longrightarrow> digit_groups ds = Some ds"
  by (induction ds rule: digit_groups.induct) (auto dest: is_digit_plain)

lemma nat_of_digits_str_nat: "nat_of_digits (str_nat n) = Inr n"
  using str_nat_digits [of n] by (simp add: nat_of_digits_def digit_groups_digits str_nat_value)

lemma dropWhile_id: "xs = [] \<or> \<not> P (hd xs) \<Longrightarrow> dropWhile P xs = xs"
  by (cases xs) auto

lemma strip_plain: "\<not> is_space (hd s) \<Longrightarrow> \<not> is_space (last s) \<Longrightarrow> strip s = s"
  by (cases "s = []") (simp_all add: strip_def dropWhile_id hd_rev)

lemma str_nat_ends: "is_digit (hd (str_nat n)) \<and> is_digit (last (str_nat n))"
  using str_nat_digits [of n] by (cases "str_nat n") (auto simp: list_all_iff)

lemma py_int_str_nat: "py_int (str_nat n) = Inr (int n)"
proof (cases "str_nat n")
  case Nil
  then show ?thesis using str_nat_digits [of n] by simp
next
  case (Cons c cs)
  have "strip (str_nat n) = str_nat n"
    using str_nat_ends [of n] by (intro strip_plain) (auto dest: is_digit_plain)
  moreover have "is_digit c" using Cons str_nat_digits [of n] by simp
  then have "c \<noteq> CHR ''-''" "c \<noteq> CHR ''+''" using is_digit_plain by blast+
  ultimately have "py_int (str_nat n) = map_sum id int (nat_of_digits (str_nat n))"
    using Cons by (simp add: py_int_def)
  then show ?thesis by (simp add: nat_of_digits_str_nat)
qed

lemma py_int_minus_str_nat: "py_int (CHR ''-'' # str_nat n) = Inr (- int n)"
proof -
  have "\<not> is_space (CHR ''-'')" by (simp add: is_space_def)
  moreover have "\<not> is_space (last (CHR ''-'' # str_nat n))"
    using str_nat_ends [of n] str_nat_digits [of n] by (auto dest: is_digit_plain)
  ultimately have "strip (CHR ''-'' # str_nat n) = CHR ''-'' # str_nat n"
    by (intro strip_plain) simp_all
  then show ?thesis by (simp add: py_int_def nat_of_digits_str_nat)
qed

lemma py_int_py_str: "py_int (py_str i) = Inr i"
  by (simp add: py_str_def py_int_str_nat py_int_minus_str_nat)

lemma py_str_inject: "py_str i = py_str j \<longleftrightarrow> i = j"
  by (metis py_int_py_str sum.inject(2))

section \<open>Dict updates\<close>

lemma update_absent: "map_of cs k = None \<Longrightarrow> AList.update k v cs = cs @ [(k, v)]"
  by (induction cs) (auto split: if_splits)

lemma update_present:
  "map_of cs k = Some c \<Longrightarrow>
   \<exists>xs ys. cs = xs @ (k, c) # ys \<and> k \<notin> fst ` set xs \<and> AList.update k v cs = xs @ (k, v) # ys"
proof (induction cs)
  case Nil
  then show ?case by simp
next
  case (Cons a cs)
  show ?case
  proof (cases "fst a = k")
    case True
    with Cons.prems have "a = (k, c)" by (cases a) auto
    then have "a # cs = [] @ (k, c) # cs \<and> k \<notin> fst ` set [] \<and> AList.update k v (a # cs) = [] @ (k, v) # cs"
      by simp
    then show ?thesis by blast
  next
    case False
    with Cons.prems have "map_of cs k = Some c" by (cases a) auto
    from Cons.IH [OF this] obtain xs ys where
      *: "cs = xs @ (k, c) # ys" "k \<notin> fst ` set xs" "AList.update k v cs = xs @ (k, v) # ys"
      by blast
    with False have "a # cs = (a # xs) @ (k, c) # ys \<and> k \<notin> fst ` set (a # xs) \<and>
        AList.update k v (a # cs) = (a # xs) @ (k, v) # ys"
      by (cases a) auto
    then show ?thesis by blast
  qed
qed

lemma stored_words_add_loop:
  "mset (stored_words (add_loop df w t)) = add_mset w (mset (stored_words t))"
proof (induction df w t rule: add_loop.induct)
  case (1 df w parent children)
  show ?case
  proof (cases "map_of children (py_str (df w parent))")
    case None
    then show ?thesis by (simp add: update_absent)
  next
    case (Some nd)
    from update_present [OF Some, of "add_loop df w nd"] obtain xs ys where
      *: "children = xs @ (py_str (df w parent), nd) # ys"
         "AList.update (py_str (df w parent)) (add_loop df w nd) children
            = xs @ (py_str (df w parent), add_loop df w nd) # ys"
      by blast
    have "mset (stored_words (add_loop df w nd)) = add_mset w (mset (stored_words nd))"
      using 1 Some by simp
    then show ?thesis using Some * by simp
  qed
qed

section \<open>Soundness of the two traversals\<close>




section \<open>\<open>add_word\<close> keeps the tree keyed\<close>

lemma stored_words_nonempty: "stored_words t \<noteq> []"
  by (cases t) simp

lemma node_word_stored: "node_word t \<in> set (stored_words t)"
  by (cases t) simp

lemma set_stored_words_add_loop:
  "set (stored_words (add_loop df w t)) = insert w (set (stored_words t))"
proof -
  have "set_mset (mset (stored_words (add_loop df w t))) = set_mset (add_mset w (mset (stored_words t)))"
    by (simp only: stored_words_add_loop)
  then show ?thesis by simp
qed

lemma keyed_add_loop: "keyed df t \<Longrightarrow> keyed df (add_loop df w t)"
proof (induction df w t rule: add_loop.induct)
  case (1 df w parent children)
  let ?k = "py_str (df w parent)"
  from "1.prems" have dist: "distinct (map fst children)"
    and kids: "\<And>kc. kc \<in> set children \<Longrightarrow>
        (\<forall>x \<in> set (stored_words (snd kc)). py_str (df x parent) = fst kc) \<and> keyed df (snd kc)"
    by auto
  show ?case
  proof (cases "map_of children ?k")
    case None
    then have fresh: "?k \<notin> fst ` set children" by (simp add: map_of_eq_None_iff)
    have "keyed df (Node parent (children @ [(?k, Node w [])]))"
      using dist kids fresh by auto
    then show ?thesis using None by (simp add: update_absent)
  next
    case (Some nd)
    from update_present [OF Some, of "add_loop df w nd"] obtain xs ys where
      split: "children = xs @ (?k, nd) # ys"
        "AList.update ?k (add_loop df w nd) children = xs @ (?k, add_loop df w nd) # ys"
      by blast
    have nd_in: "(?k, nd) \<in> set children" using split(1) by simp
    from kids [OF nd_in] have nd_words: "\<forall>x \<in> set (stored_words nd). py_str (df x parent) = ?k"
      and nd_keyed: "keyed df nd" by auto
    have new_keyed: "keyed df (add_loop df w nd)"
      using "1.IH" [OF refl Some nd_keyed] .
    have new_words: "\<forall>x \<in> set (stored_words (add_loop df w nd)). py_str (df x parent) = ?k"
      using nd_words by (simp add: set_stored_words_add_loop)
    have d': "distinct (map fst (xs @ (?k, add_loop df w nd) # ys))"
      using dist split(1) by simp
    have "keyed df (Node parent (xs @ (?k, add_loop df w nd) # ys))"
      unfolding keyed.simps
    proof (intro conjI ballI)
      show "distinct (map fst (xs @ (?k, add_loop df w nd) # ys))" by (rule d')
    next
      fix kc x
      assume kc: "kc \<in> set (xs @ (?k, add_loop df w nd) # ys)"
        and x: "x \<in> set (stored_words (snd kc))"
      show "py_str (df x parent) = fst kc"
      proof (cases "kc = (?k, add_loop df w nd)")
        case True
        then show ?thesis using new_words x by simp
      next
        case False
        with kc have "kc \<in> set children" using split(1) by auto
        from kids [OF this] x show ?thesis by blast
      qed
    next
      fix kc
      assume kc: "kc \<in> set (xs @ (?k, add_loop df w nd) # ys)"
      show "keyed df (snd kc)"
      proof (cases "kc = (?k, add_loop df w nd)")
        case True
        then show ?thesis using new_keyed by simp
      next
        case False
        with kc have "kc \<in> set children" using split(1) by auto
        from kids [OF this] show ?thesis by blast
      qed
    qed
    then show ?thesis using Some split(2) by simp
  qed
qed

section \<open>The pruned search finds exactly the matches\<close>

lemma sum_list_delta_upto:
  fixes X :: "'a :: comm_monoid_add"
  shows "(\<Sum>i\<leftarrow>[lo..hi]. if i = j then X else 0) = (if lo \<le> j \<and> j \<le> hi then X else 0)"
proof -
  have "(\<Sum>i\<leftarrow>[lo..hi]. if i = j then X else 0) = (\<Sum>i\<in>{lo..hi}. if i = j then X else 0)"
    by (simp add: sum_list_distinct_conv_sum_set)
  also have "\<dots> = (if j \<in> {lo..hi} then X else 0)"
    by simp
  finally show ?thesis by simp
qed

lemma range_lookup_sum:
  fixes F :: "node \<Rightarrow> 'a :: comm_monoid_add"
  assumes "distinct (map fst cs)" and "\<forall>kc \<in> set cs. \<exists>j. fst kc = py_str j"
  shows "(\<Sum>i\<leftarrow>[lo..hi]. case map_of cs (py_str i) of None \<Rightarrow> 0 | Some c \<Rightarrow> F c)
       = (\<Sum>kc\<leftarrow>cs. if \<exists>j. lo \<le> j \<and> j \<le> hi \<and> fst kc = py_str j then F (snd kc) else 0)"
  using assms
proof (induction cs)
  case Nil
  then show ?case by simp
next
  case (Cons kc cs)
  from Cons.prems obtain j where j: "fst kc = py_str j" by auto
  from Cons.prems j have fresh: "map_of cs (py_str j) = None"
    by (simp add: map_of_eq_None_iff)
  have pointwise: "(case map_of (kc # cs) (py_str i) of None \<Rightarrow> 0 | Some c \<Rightarrow> F c)
      = (if i = j then F (snd kc) else 0) + (case map_of cs (py_str i) of None \<Rightarrow> 0 | Some c \<Rightarrow> F c)"
    for i
    using j fresh by (cases kc) (simp add: py_str_inject)
  have "(\<Sum>i\<leftarrow>[lo..hi]. case map_of (kc # cs) (py_str i) of None \<Rightarrow> 0 | Some c \<Rightarrow> F c)
      = (\<Sum>i\<leftarrow>[lo..hi]. if i = j then F (snd kc) else 0)
        + (\<Sum>i\<leftarrow>[lo..hi]. case map_of cs (py_str i) of None \<Rightarrow> 0 | Some c \<Rightarrow> F c)"
    by (simp only: pointwise sum_list_addf)
  also have "(\<Sum>i\<leftarrow>[lo..hi]. if i = j then F (snd kc) else 0)
      = (if lo \<le> j \<and> j \<le> hi then F (snd kc) else 0)"
    by (rule sum_list_delta_upto)
  also have "(if lo \<le> j \<and> j \<le> hi then F (snd kc) else 0)
      = (if \<exists>j. lo \<le> j \<and> j \<le> hi \<and> fst kc = py_str j then F (snd kc) else 0)"
    using j by (auto simp: py_str_inject)
  also have "(\<Sum>i\<leftarrow>[lo..hi]. case map_of cs (py_str i) of None \<Rightarrow> 0 | Some c \<Rightarrow> F c)
      = (\<Sum>kc\<leftarrow>cs. if \<exists>j. lo \<le> j \<and> j \<le> hi \<and> fst kc = py_str j then F (snd kc) else 0)"
    using Cons by simp
  finally show ?case by simp
qed


lemma matches_append: "matches df w n (xs @ ys) = matches df w n xs @ matches df w n ys"
  by (simp add: matches_def)

lemma mset_matches_concat:
  "mset (matches df w n (concat xss)) = (\<Sum>xs\<leftarrow>xss. mset (matches df w n xs))"
  by (induction xss) (simp_all add: matches_append, simp add: matches_def)

lemma pruned_no_match:
  assumes sym: "symmetric df" and tri: "triangle df"
    and key: "\<forall>x \<in> set ws. df x p = k"
    and out: "\<not> (df w p - n \<le> k \<and> k \<le> df w p + n)"
  shows "matches df w n ws = []"
proof -
  have "\<not> df w x \<le> n" if x: "x \<in> set ws" for x
  proof
    assume near: "df w x \<le> n"
    have "df w p \<le> df w x + df x p" using tri by (simp add: triangle_def)
    moreover have "df x p \<le> df x w + df w p" using tri by (simp add: triangle_def)
    moreover have "df x w = df w x" using sym by (simp add: symmetric_def)
    moreover have "df x p = k" using key x by simp
    ultimately show False using near out by linarith
  qed
  then show ?thesis by (simp add: matches_def filter_empty_conv)
qed

lemma rec_matches:
  "symmetric df \<Longrightarrow> triangle df \<Longrightarrow> keyed df t \<Longrightarrow>
   mset (rec df w n t) = mset (matches df w n (stored_words t))"
proof (induction df w n t rule: rec.induct)
  case (1 df w n p cs)
  let ?d = "df w p"
  let ?F = "\<lambda>c. mset (rec df w n c)"
  let ?inrange = "\<lambda>kc. \<exists>j. ?d - n \<le> j \<and> j \<le> ?d + n \<and> fst kc = py_str j"
  note sym = "1.prems"(1) and tri = "1.prems"(2)
  from "1.prems"(3) have dist: "distinct (map fst cs)"
    and kids: "\<And>kc. kc \<in> set cs \<Longrightarrow>
        (\<forall>x \<in> set (stored_words (snd kc)). py_str (df x p) = fst kc) \<and> keyed df (snd kc)"
    by auto
  have canon: "\<forall>kc \<in> set cs. \<exists>j. fst kc = py_str j"
  proof
    fix kc assume "kc \<in> set cs"
    from kids [OF this] node_word_stored [of "snd kc"]
    have "py_str (df (node_word (snd kc)) p) = fst kc" by blast
    then show "\<exists>j. fst kc = py_str j" by metis
  qed
  have case_mset: "mset (case x of None \<Rightarrow> [] | Some c \<Rightarrow> rec df w n c)
        = (case x of None \<Rightarrow> {#} | Some c \<Rightarrow> ?F c)" for x
    by (cases x) simp_all
  have "mset (rec df w n (Node p cs))
      = mset (matches df w n [p])
        + (\<Sum>i\<leftarrow>[?d - n .. ?d + n]. case map_of cs (py_str i) of None \<Rightarrow> {#} | Some c \<Rightarrow> ?F c)"
    by (simp add: Let_def matches_def mset_concat comp_def case_mset)
  also have "(\<Sum>i\<leftarrow>[?d - n .. ?d + n]. case map_of cs (py_str i) of None \<Rightarrow> {#} | Some c \<Rightarrow> ?F c)
      = (\<Sum>kc\<leftarrow>cs. if ?inrange kc then ?F (snd kc) else {#})"
    using range_lookup_sum [OF dist canon, where F = ?F and lo = "?d - n" and hi = "?d + n"]
    by simp
  also have "(\<Sum>kc\<leftarrow>cs. if ?inrange kc then ?F (snd kc) else {#})
      = (\<Sum>kc\<leftarrow>cs. mset (matches df w n (stored_words (snd kc))))"
  proof (rule arg_cong [where f = sum_list], rule map_cong [OF refl])
    fix kc assume kc: "kc \<in> set cs"
    from kids [OF kc] have words: "\<forall>x \<in> set (stored_words (snd kc)). py_str (df x p) = fst kc"
      and keyed_c: "keyed df (snd kc)" by auto
    show "(if ?inrange kc then ?F (snd kc) else {#}) = mset (matches df w n (stored_words (snd kc)))"
    proof (cases "?inrange kc")
      case True
      then obtain j where j: "?d - n \<le> j" "j \<le> ?d + n" "fst kc = py_str j" by blast
      have "map_of cs (py_str j) = Some (snd kc)"
        using dist kc j(3) by (cases kc) simp
      moreover have "j \<in> set [?d - n .. ?d + n]" using j by simp
      ultimately have "?F (snd kc) = mset (matches df w n (stored_words (snd kc)))"
        using "1.IH" [OF refl refl _ _ sym tri keyed_c] by blast
      then show ?thesis using True by simp
    next
      case False
      obtain k where k: "fst kc = py_str k" using canon kc by blast
      have "\<forall>x \<in> set (stored_words (snd kc)). df x p = k"
        using words k by (simp add: py_str_inject)
      moreover have "\<not> (?d - n \<le> k \<and> k \<le> ?d + n)" using False k by blast
      ultimately have "matches df w n (stored_words (snd kc)) = []"
        using pruned_no_match [OF sym tri] by blast
      then have "mset (matches df w n (stored_words (snd kc))) = {#}" by simp
      moreover have "(if ?inrange kc then ?F (snd kc) else {#}) = {#}"
        using False by (simp only: if_False)
      ultimately show ?thesis by simp
    qed
  qed
  also have "mset (matches df w n [p]) + (\<Sum>kc\<leftarrow>cs. mset (matches df w n (stored_words (snd kc))))
      = mset (matches df w n (stored_words (Node p cs)))"
  proof -
    have "stored_words (Node p cs) = [p] @ concat (map (\<lambda>kc. stored_words (snd kc)) cs)"
      by simp
    then have "mset (matches df w n (stored_words (Node p cs)))
        = mset (matches df w n [p])
          + mset (matches df w n (concat (map (\<lambda>kc. stored_words (snd kc)) cs)))"
      by (simp only: matches_append mset_append)
    then show ?thesis by (simp only: mset_matches_concat map_map comp_def)
  qed
  finally show ?case .
qed

section \<open>Invariants of reachable objects\<close>

lemma keyed_tree_add_word: "keyed_tree df self \<Longrightarrow> keyed_tree df (add_word w self)"
  by (auto simp: keyed_tree_def add_word_def keyed_add_loop split: option.splits)

lemma keyed_tree_foldl:
  "keyed_tree df self \<Longrightarrow> keyed_tree df (foldl (\<lambda>s i. add_word i s) self ws)"
  by (induction ws arbitrary: self) (simp_all add: keyed_tree_add_word)

lemma keyed_tree_init: "init df words = Inr self \<Longrightarrow> keyed_tree df self"
proof -
  assume a: "init df words = Inr self"
  have start: "keyed_tree df \<lparr>distance_func = df, tree = Some (Node r [])\<rparr>" for r
    by (simp add: keyed_tree_def)
  have none: "keyed_tree df \<lparr>distance_func = df, tree = None\<rparr>"
    by (simp add: keyed_tree_def)
  from a show ?thesis
    by (auto simp: init_def Let_def none intro!: keyed_tree_foldl start split: if_splits list.splits)
qed

lemma reachable_keyed: "reachable df self \<Longrightarrow> keyed_tree df self"
proof (induction rule: reachable.induct)
  case (by_init words self)
  then show ?case by (rule keyed_tree_init)
next
  case (by_add_word self w)
  from by_add_word.IH show ?case by (rule keyed_tree_add_word)
next
  case (by_query self w n)
  then show ?case by (simp add: query_def split: option.split)
next
  case (by_find self item n)
  then show ?case by (simp add: find_items_def split: option.split)
qed

lemma node_word_add_loop: "node_word (add_loop df w t) = node_word t"
  by (cases t) (simp add: Let_def split: option.split)

lemma exact_keys_add_loop:
  "symmetric df \<Longrightarrow> exact_keys df t \<Longrightarrow> exact_keys df (add_loop df w t)"
proof (induction df w t rule: add_loop.induct)
  case (1 df w parent children)
  let ?k = "py_str (df w parent)"
  from "1.prems"(1) have flip: "df w parent = df parent w" by (simp add: symmetric_def)
  from "1.prems"(2) have kids: "\<And>kc. kc \<in> set children \<Longrightarrow>
      fst kc = py_str (df parent (node_word (snd kc))) \<and> exact_keys df (snd kc)"
    by auto
  show ?case
  proof (cases "map_of children ?k")
    case None
    have "exact_keys df (Node parent (children @ [(?k, Node w [])]))"
      using kids flip by auto
    then show ?thesis using None by (simp add: update_absent)
  next
    case (Some nd)
    from update_present [OF Some, of "add_loop df w nd"] obtain xs ys where
      split: "children = xs @ (?k, nd) # ys"
        "AList.update ?k (add_loop df w nd) children = xs @ (?k, add_loop df w nd) # ys"
      by blast
    have nd_in: "(?k, nd) \<in> set children" using split(1) by simp
    from kids [OF nd_in] have nd_key: "?k = py_str (df parent (node_word nd))"
      and nd_exact: "exact_keys df nd" by auto
    have new_exact: "exact_keys df (add_loop df w nd)"
      using "1.IH" [OF refl Some "1.prems"(1) nd_exact] .
    have "exact_keys df (Node parent (xs @ (?k, add_loop df w nd) # ys))"
      unfolding exact_keys.simps
    proof (intro ballI)
      fix kc
      assume kc: "kc \<in> set (xs @ (?k, add_loop df w nd) # ys)"
      show "fst kc = py_str (df parent (node_word (snd kc))) \<and> exact_keys df (snd kc)"
      proof (cases "kc = (?k, add_loop df w nd)")
        case True
        then show ?thesis using new_exact nd_key by (simp add: node_word_add_loop)
      next
        case False
        with kc have "kc \<in> set children" using split(1) by auto
        from kids [OF this] show ?thesis .
      qed
    qed
    then show ?thesis using Some split(2) by simp
  qed
qed

lemma invariant_add_word:
  "symmetric (distance_func self) \<Longrightarrow> child_key_invariant self \<Longrightarrow>
   child_key_invariant (add_word w self)"
  by (auto simp: child_key_invariant_def add_word_def exact_keys_add_loop split: option.splits)

lemma distance_func_add_word: "distance_func (add_word w self) = distance_func self"
  by (simp add: add_word_def split: option.split)

lemma invariant_foldl:
  "symmetric (distance_func self) \<Longrightarrow> child_key_invariant self \<Longrightarrow>
   child_key_invariant (foldl (\<lambda>s i. add_word i s) self ws)"
  by (induction ws arbitrary: self) (simp_all add: invariant_add_word distance_func_add_word)

lemma invariant_init:
  assumes "symmetric df" and "init df words = Inr self"
  shows "child_key_invariant self"
proof -
  have start: "child_key_invariant \<lparr>distance_func = df, tree = Some (Node r [])\<rparr>" for r
    by (simp add: child_key_invariant_def)
  have none: "child_key_invariant \<lparr>distance_func = df, tree = None\<rparr>"
    by (simp add: child_key_invariant_def)
  from assms show ?thesis
    by (auto simp: init_def Let_def none intro!: invariant_foldl start split: if_splits list.splits)
qed

section \<open>\<open>find\<close> returns the matches too\<close>

lemma select_children_keyed:
  assumes "\<forall>kc \<in> set cs. \<exists>j. fst kc = py_str j"
  shows "select_children lo hi cs
       = Inr (map snd (filter (\<lambda>kc. \<exists>j. lo \<le> j \<and> j \<le> hi \<and> fst kc = py_str j) cs))"
  using assms
proof (induction cs)
  case Nil
  then show ?case by simp
next
  case (Cons kc cs)
  obtain k c where kc: "kc = (k, c)" by (cases kc)
  from Cons.prems kc obtain j where j: "k = py_str j" by auto
  have "(\<exists>j'. lo \<le> j' \<and> j' \<le> hi \<and> k = py_str j') \<longleftrightarrow> lo \<le> j \<and> j \<le> hi"
    using j by (auto simp: py_str_inject)
  moreover have "select_children lo hi cs
      = Inr (map snd (filter (\<lambda>kc. \<exists>j. lo \<le> j \<and> j \<le> hi \<and> fst kc = py_str j) cs))"
    using Cons by simp
  ultimately show ?case using kc j by (simp add: py_int_py_str)
qed

lemma sum_list_filter_if:
  fixes f :: "'b \<Rightarrow> 'a :: comm_monoid_add"
  shows "(\<Sum>x\<leftarrow>filter P xs. f x) = (\<Sum>x\<leftarrow>xs. if P x then f x else 0)"
  by (induction xs) simp_all

lemma children_matches:
  assumes sym: "symmetric df" and tri: "triangle df"
    and words: "\<forall>kc \<in> set cs. \<forall>x \<in> set (stored_words (snd kc)). py_str (df x p) = fst kc"
  shows "(\<Sum>kc\<leftarrow>cs. if \<exists>j. df w p - n \<le> j \<and> j \<le> df w p + n \<and> fst kc = py_str j
                   then mset (matches df w n (stored_words (snd kc))) else {#})
       = (\<Sum>kc\<leftarrow>cs. mset (matches df w n (stored_words (snd kc))))"
proof (rule arg_cong [where f = sum_list], rule map_cong [OF refl])
  fix kc assume kc: "kc \<in> set cs"
  let ?inrange = "\<exists>j. df w p - n \<le> j \<and> j \<le> df w p + n \<and> fst kc = py_str j"
  show "(if ?inrange then mset (matches df w n (stored_words (snd kc))) else {#})
      = mset (matches df w n (stored_words (snd kc)))"
  proof (cases ?inrange)
    case True
    then show ?thesis by (simp only: if_True)
  next
    case False
    from words kc node_word_stored [of "snd kc"]
    have k: "fst kc = py_str (df (node_word (snd kc)) p)" by fastforce
    have "\<forall>x \<in> set (stored_words (snd kc)). df x p = df (node_word (snd kc)) p"
      using words kc k by (metis py_str_inject)
    moreover have "\<not> (df w p - n \<le> df (node_word (snd kc)) p \<and> df (node_word (snd kc)) p \<le> df w p + n)"
      using False k by blast
    ultimately have "matches df w n (stored_words (snd kc)) = []"
      using pruned_no_match [OF sym tri] by blast
    then show ?thesis by simp
  qed
qed

lemma find_loop_matches:
  "symmetric df \<Longrightarrow> triangle df \<Longrightarrow> \<forall>c \<in> set cands. keyed df c \<Longrightarrow>
   \<exists>res. find_loop df item n cands found = Inr res \<and>
         mset res = mset found + (\<Sum>c\<leftarrow>cands. mset (matches df item n (stored_words c)))"
proof (induction df item n cands found rule: find_loop.induct)
  case (1 df item n found)
  then show ?case by simp
next
  case (2 df item n p cs candidates found)
  note sym = "2.prems"(1) and tri = "2.prems"(2)
  let ?d = "df p item"
  let ?found = "if ?d \<le> n then found @ [(?d, p)] else found"
  let ?M = "\<lambda>c. mset (matches df item n (stored_words c))"
  let ?inrange = "\<lambda>kc. \<exists>j. ?d - n \<le> j \<and> j \<le> ?d + n \<and> fst kc = py_str j"
  have flip: "?d = df item p" using sym by (simp add: symmetric_def)
  from "2.prems"(3) have rest_keyed: "\<forall>c \<in> set candidates. keyed df c"
    and kids: "\<And>kc. kc \<in> set cs \<Longrightarrow>
        (\<forall>x \<in> set (stored_words (snd kc)). py_str (df x p) = fst kc) \<and> keyed df (snd kc)"
    by auto
  have canon: "\<forall>kc \<in> set cs. \<exists>j. fst kc = py_str j"
  proof
    fix kc assume "kc \<in> set cs"
    from kids [OF this] node_word_stored [of "snd kc"]
    have "py_str (df (node_word (snd kc)) p) = fst kc" by blast
    then show "\<exists>j. fst kc = py_str j" by metis
  qed
  have found': "mset ?found = mset found + mset (matches df item n [p])"
    by (simp add: matches_def flip)
  have node: "?M (Node p cs) = mset (matches df item n [p]) + (\<Sum>kc\<leftarrow>cs. ?M (snd kc))"
  proof -
    have "stored_words (Node p cs) = [p] @ concat (map (\<lambda>kc. stored_words (snd kc)) cs)"
      by simp
    then have "?M (Node p cs) = mset (matches df item n [p])
          + mset (matches df item n (concat (map (\<lambda>kc. stored_words (snd kc)) cs)))"
      by (simp only: matches_append mset_append)
    then show ?thesis by (simp only: mset_matches_concat map_map comp_def)
  qed
  show ?case
  proof (cases "cs \<noteq> []")
    case True
    let ?sel = "map snd (filter ?inrange cs)"
    have sel: "select_children (?d - n) (?d + n) cs = Inr ?sel"
      using canon by (rule select_children_keyed)
    have "\<forall>c \<in> set (candidates @ ?sel). keyed df c"
      using rest_keyed kids by auto
    from "2.IH"(1) [OF refl refl True sel sym tri this] obtain res where
      run: "find_loop df item n (candidates @ ?sel) ?found = Inr res" and
      res: "mset res = mset ?found + (\<Sum>c\<leftarrow>candidates @ ?sel. ?M c)"
      by blast
    have "(\<Sum>c\<leftarrow>?sel. ?M c) = (\<Sum>kc\<leftarrow>filter ?inrange cs. ?M (snd kc))"
      by (simp add: comp_def)
    also have "\<dots> = (\<Sum>kc\<leftarrow>cs. if ?inrange kc then ?M (snd kc) else {#})"
      by (rule sum_list_filter_if)
    also have "\<dots> = (\<Sum>kc\<leftarrow>cs. ?M (snd kc))"
      using children_matches [OF sym tri, of cs p item n] kids by (simp only: flip) blast
    finally have pruned: "(\<Sum>c\<leftarrow>?sel. ?M c) = (\<Sum>kc\<leftarrow>cs. ?M (snd kc))" .
    have "mset res = mset found + (\<Sum>c\<leftarrow>Node p cs # candidates. ?M c)"
      by (simp only: res found' list.map sum_list.Cons map_append sum_list_append node pruned)
         (simp add: ac_simps)
    moreover have "find_loop df item n (Node p cs # candidates) found = Inr res"
      using True sel run by (simp add: Let_def)
    ultimately show ?thesis by blast
  next
    case False
    from "2.IH"(2) [OF refl refl _ sym tri rest_keyed] False obtain res where
      run: "find_loop df item n candidates ?found = Inr res" and
      res: "mset res = mset ?found + (\<Sum>c\<leftarrow>candidates. ?M c)"
      by blast
    have "(\<Sum>kc\<leftarrow>cs. ?M (snd kc)) = {#}" using False by simp
    then have "mset res = mset found + (\<Sum>c\<leftarrow>Node p cs # candidates. ?M c)"
      by (simp only: res found' list.map sum_list.Cons node) (simp add: ac_simps)
    moreover have "find_loop df item n (Node p cs # candidates) found = Inr res"
      using False run by (simp add: Let_def)
    ultimately show ?thesis by blast
  qed
qed

lemma sorted_fst_sort: "sorted (map fst (sort (xs :: (int \<times> string) list)))"
proof -
  have "sorted (sort xs)" by simp
  then have "sorted_wrt (\<lambda>x y. fst x \<le> fst y) (sort xs)"
    by (rule sorted_wrt_mono_rel [rotated]) (auto simp: less_eq_prod_def)
  then show ?thesis by (simp add: sorted_wrt_map)
qed

lemma query_find_agree:
  assumes "symmetric df" and "triangle df" and "reachable df self" and "tree self \<noteq> None"
  shows "\<exists>r1 r2. fst (query self w n) = Inr r1 \<and> fst (find_items self w n) = Inr r2 \<and>
           mset r1 = mset r2 \<and> sorted (map fst r1) \<and> sorted (map fst r2)"
proof -
  from assms(3) have k: "keyed_tree df self" by (rule reachable_keyed)
  from assms(4) obtain root where root: "tree self = Some root" by auto
  from k root have keyed_root: "keyed df root" and df: "distance_func self = df"
    by (simp_all add: keyed_tree_def)
  from find_loop_matches [OF assms(1,2), of "[root]" w n "[]"] keyed_root obtain res where
    run: "find_loop df w n [root] [] = Inr res" and
    res: "mset res = mset (matches df w n (stored_words root))"
    by auto
  have q: "fst (query self w n) = Inr (sort (rec df w n root))"
    using root df by (simp add: query_def)
  have f: "fst (find_items self w n) = Inr (sort_key fst res)"
    using root df run by (simp add: find_items_def)
  have "mset (sort (rec df w n root)) = mset (sort_key fst res)"
    using res rec_matches [OF assms(1,2) keyed_root, of w n] by simp
  moreover have "sorted (map fst (sort_key fst res))" by (rule sorted_sort_key)
  ultimately show ?thesis using q f sorted_fst_sort by blast
qed

section \<open>\<open>query\<close> reaches every copy of the word it asks for\<close>





section \<open>\<open>levenshtein\<close> of a word and itself\<close>





section \<open>Where a repeated word lands\<close>


lemma words_of_add_word:
  "mset (words_of (add_word w self)) = add_mset w (mset (words_of self))"
  by (simp add: words_of_def add_word_def stored_words_add_loop split: option.split)

lemma landing_key_entry:
  "(landing_key df w t, Node w []) \<in> set (entries (add_loop df w t))"
proof (induction df w t rule: add_loop.induct)
  case (1 df w parent children)
  let ?k = "py_str (df w parent)"
  show ?case
  proof (cases "map_of children ?k")
    case None
    then show ?thesis by (simp add: update_absent)
  next
    case (Some nd)
    from update_present [OF Some, of "add_loop df w nd"] obtain xs ys where
      split: "AList.update ?k (add_loop df w nd) children = xs @ (?k, add_loop df w nd) # ys"
      by blast
    have "(landing_key df w nd, Node w []) \<in> set (entries (add_loop df w nd))"
      using "1.IH" [OF refl Some] .
    then show ?thesis using Some split by simp
  qed
qed

section \<open>The example objects\<close>

lemma discrete_symmetric: "symmetric discrete"
  by (simp add: symmetric_def discrete_def)

lemma discrete_triangle: "triangle discrete"
  by (simp add: triangle_def discrete_def)

lemma init_abc: "init discrete (ListWords [''a'', ''b'', ''c'']) = Inr abc_tree"
proof -
  have 1: "add_loop discrete ''b'' (Node ''a'' []) = Node ''a'' [(''1'', Node ''b'' [])]"
    by code_simp
  have 2: "add_loop discrete ''c'' (Node ''a'' [(''1'', Node ''b'' [])])
      = Node ''a'' [(''1'', Node ''b'' [(''1'', Node ''c'' [])])]"
    by code_simp
  show ?thesis by (simp add: init_def add_word_def abc_tree_def Let_def 1 2 del: add_loop.simps)
qed

lemma reachable_abc: "reachable discrete abc_tree"
  using init_abc by (rule reachable.by_init)



lemma init_books: "init levenshtein (ListWords [''book'', ''books'']) = Inr books_tree"
proof -
  have "add_loop levenshtein ''books'' (Node ''book'' []) = Node ''book'' [(''1'', Node ''books'' [])]"
    by code_simp
  then show ?thesis
    by (simp add: init_def add_word_def books_tree_def Let_def del: add_loop.simps)
qed



lemma lev_cook_book: "levenshtein ''cook'' ''book'' = 1"
  by code_simp

lemma add_cook:
  "add_loop levenshtein ''cook'' (Node ''book'' [(''1'', Node ''books'' [])])
     = Node ''book'' [(''1'', Node ''books'' [(''2'', Node ''cook'' [])])]"
  by code_simp

lemma init_five: "init levenshtein (ListWords book_words) = Inr five_tree"
proof -
  have 1: "add_loop levenshtein ''books'' (Node ''book'' []) = Node ''book'' [(''1'', Node ''books'' [])]"
    by code_simp
  have 2: "add_loop levenshtein ''cook'' (Node ''book'' [(''1'', Node ''books'' [])])
      = Node ''book'' [(''1'', Node ''books'' [(''2'', Node ''cook'' [])])]"
    by code_simp
  have 3: "add_loop levenshtein ''booze'' (Node ''book'' [(''1'', Node ''books'' [(''2'', Node ''cook'' [])])])
      = Node ''book'' [(''1'', Node ''books'' [(''2'', Node ''cook'' [])]), (''2'', Node ''booze'' [])]"
    by code_simp
  have 4: "add_loop levenshtein ''cake''
        (Node ''book'' [(''1'', Node ''books'' [(''2'', Node ''cook'' [])]), (''2'', Node ''booze'' [])])
      = Node ''book'' [(''1'', Node ''books'' [(''2'', Node ''cook'' [])]), (''2'', Node ''booze'' []),
          (''4'', Node ''cake'' [])]"
    by code_simp
  show ?thesis
    by (simp add: init_def add_word_def five_tree_def book_words_def Let_def 1 2 3 4 del: add_loop.simps)
qed

lemma query_five:
  "fst (query five_tree ''book'' 1) = Inr [(0, ''book''), (1, ''books''), (1, ''cook'')]"
proof -
  have "sort (rec levenshtein ''book'' 1 (Node ''book''
       [(''1'', Node ''books'' [(''2'', Node ''cook'' [])]),
        (''2'', Node ''booze'' []),
        (''4'', Node ''cake'' [])]))
      = [(0, ''book''), (1, ''books''), (1, ''cook'')]"
    by code_simp
  then show ?thesis by (simp add: query_def five_tree_def del: rec.simps)
qed

section \<open>The claims\<close>

text \<open>
  C1 (completeness of the pruned search). For an object built by the constructor and
  \<open>add_word\<close> with a symmetric distance that obeys the triangle inequality, every stored
  word \<open>s\<close> and every radius \<open>n\<close> with \<open>distance(w, s) \<le> n\<close>: \<open>query(w, n)\<close> returns, and the
  pair \<open>(distance(w, s), s)\<close> is in its result. The pruning drops no match.
\<close>

theorem query_complete:
  assumes "symmetric df" and "triangle df" and "reachable df self"
    and "s \<in> set (words_of self)" and "df w s \<le> n"
  shows "\<exists>res. fst (query self w n) = Inr res \<and> (df w s, s) \<in> set res"
proof -
  from assms(3) have k: "keyed_tree df self" by (rule reachable_keyed)
  from assms(4) obtain root where root: "tree self = Some root" "s \<in> set (stored_words root)"
    by (cases "tree self") (auto simp: words_of_def)
  from k root(1) have "keyed df root" and df: "distance_func self = df"
    by (simp_all add: keyed_tree_def)
  then have "mset (rec df w n root) = mset (matches df w n (stored_words root))"
    using assms(1,2) by (simp add: rec_matches)
  then have "set (rec df w n root) = set (matches df w n (stored_words root))"
    by (rule mset_eq_setD)
  moreover have "(df w s, s) \<in> set (matches df w n (stored_words root))"
    using root(2) assms(5) by (auto simp: matches_def)
  ultimately have "(df w s, s) \<in> set (sort (rec df w n root))" by simp
  then show ?thesis using root(1) df by (simp add: query_def)
qed

theorem query_complete_witness:
  "\<exists>res. fst (query abc_tree ''b'' 1) = Inr res \<and> (1, ''c'') \<in> set res"
proof -
  have stored: "''c'' \<in> set (words_of abc_tree)"
    by (simp add: words_of_def abc_tree_def)
  have near: "discrete ''b'' ''c'' \<le> 1" by (simp add: discrete_def)
  from query_complete [OF discrete_symmetric discrete_triangle reachable_abc stored near]
  show ?thesis by (simp add: discrete_def)
qed




text \<open>
  C3 (query/find equivalence, the empty tree included). On the empty tree \<open>find\<close> returns
  the empty list, as its guard \<^verbatim>\<open>if self.tree is None\<close> says, while \<open>query\<close> has no such
  guard: \<^verbatim>\<open>rec(None)\<close> raises TypeError when it unpacks \<^verbatim>\<open>None\<close>. The two do not return
  the same pairs there. (On a non-empty reachable tree they do, each list ascending by
  distance: lemma \<open>query_find_agree\<close>.)
\<close>

theorem query_find_on_empty_tree:
  "fst (query \<lparr>distance_func = df, tree = None\<rparr> w n) = Inl TypeError \<and>
   fst (find_items \<lparr>distance_func = df, tree = None\<rparr> w n) = Inr []"
  by (simp add: query_def find_items_def)

text \<open>
  C4 (insert collision behaviour). The specification states that a word whose distance
  key is already occupied is dropped and the tree left unchanged. The loop of \<open>add_word\<close> instead
  continues with the child found under that key: inserting cook into the tree of book
  and books finds key 1 occupied by books and stores cook below books.
\<close>

theorem collision_drops_counterexample:
  "map_of [(''1'', Node ''books'' [])] (py_str (levenshtein ''cook'' ''book'')) = Some (Node ''books'' []) \<and>
   tree (add_word ''cook'' books_tree)
     = Some (Node ''book'' [(''1'', Node ''books'' [(''2'', Node ''cook'' [])])]) \<and>
   add_word ''cook'' books_tree \<noteq> books_tree \<and>
   ''cook'' \<in> set (words_of (add_word ''cook'' books_tree))"
proof -
  have key: "py_str (levenshtein ''cook'' ''book'') = ''1''"
    by (simp only: lev_cook_book) code_simp
  have t: "tree (add_word ''cook'' books_tree)
      = Some (Node ''book'' [(''1'', Node ''books'' [(''2'', Node ''cook'' [])])])"
    by (simp add: add_word_def books_tree_def add_cook del: add_loop.simps)
  have "tree books_tree \<noteq> tree (add_word ''cook'' books_tree)"
    by (simp only: t) (simp add: books_tree_def)
  then have "add_word ''cook'' books_tree \<noteq> books_tree" by metis
  then show ?thesis using key t by (simp add: words_of_def)
qed

text \<open>
  C4 as amended: when the computed distance equals an occupied child key, \<open>add_word\<close>
  descends into the existing child and continues the walk there; the stored words grow
  by exactly the new word, and the tree is never left unchanged.
\<close>

theorem collision_chains:
  assumes "tree self = Some (Node p cs)"
    and "map_of cs (py_str (distance_func self w p)) = Some nd"
  shows "tree (add_word w self) =
           Some (Node p (AList.update (py_str (distance_func self w p))
                           (add_loop (distance_func self) w nd) cs)) \<and>
         mset (words_of (add_word w self)) = add_mset w (mset (words_of self)) \<and>
         add_word w self \<noteq> self"
proof -
  have grows: "mset (words_of (add_word w self)) = add_mset w (mset (words_of self))"
    by (rule words_of_add_word)
  then have "add_word w self \<noteq> self" by auto
  moreover have "tree (add_word w self) =
      Some (Node p (AList.update (py_str (distance_func self w p))
                      (add_loop (distance_func self) w nd) cs))"
    using assms by (simp add: add_word_def)
  ultimately show ?thesis using grows by blast
qed

theorem collision_chains_witness:
  "tree (add_word ''cook'' books_tree)
     = Some (Node ''book'' [(''1'', Node ''books'' [(''2'', Node ''cook'' [])])]) \<and>
   mset (words_of (add_word ''cook'' books_tree)) = add_mset ''cook'' (mset (words_of books_tree)) \<and>
   add_word ''cook'' books_tree \<noteq> books_tree"
proof -
  have t: "tree books_tree = Some (Node ''book'' [(''1'', Node ''books'' [])])"
    by (simp add: books_tree_def)
  have key: "py_str (levenshtein ''cook'' ''book'') = ''1''"
    by (simp only: lev_cook_book) code_simp
  have occupied: "map_of [(''1'', Node ''books'' [])] (py_str (distance_func books_tree ''cook'' ''book''))
      = Some (Node ''books'' [])"
    by (simp add: books_tree_def key)
  have lev2: "levenshtein ''cook'' ''books'' = 2" by code_simp
  have key2: "py_str 2 = ''2''" by code_simp
  from collision_chains [OF t occupied]
  show ?thesis by (simp add: books_tree_def key lev2 key2)
qed

text \<open>
  C5 (child-key invariant). In every object reachable through the constructor,
  \<open>add_word\<close>, \<open>query\<close> and \<open>find\<close> with a symmetric distance, a child \<open>C\<close> of a node \<open>N\<close>
  sits under the key \<open>str(distance(N.value, C.value))\<close>.
\<close>

theorem child_keys_are_exact:
  assumes "symmetric df" and "reachable df self"
  shows "child_key_invariant self"
  using assms(2)
proof (induction rule: reachable.induct)
  case (by_init words self)
  with assms(1) show ?case by (rule invariant_init)
next
  case (by_add_word self w)
  moreover have "distance_func self = df"
    using by_add_word.hyps reachable_keyed by (simp add: keyed_tree_def)
  ultimately show ?case using assms(1) by (simp add: invariant_add_word)
next
  case (by_query self w n)
  then show ?case by (simp add: query_def split: option.split)
next
  case (by_find self item n)
  then show ?case by (simp add: find_items_def split: option.split)
qed

theorem child_keys_are_exact_witness: "child_key_invariant abc_tree"
  using child_keys_are_exact [OF discrete_symmetric reachable_abc] .

text \<open>
  C6 (Levenshtein known values and base case): the three known values, and when either
  string is empty the result is the length of the other.
\<close>

theorem levenshtein_known_values:
  "levenshtein ''kitten'' ''sitting'' = 3 \<and> levenshtein '''' ''abc'' = 3 \<and>
   levenshtein ''abc'' ''abc'' = 0 \<and>
   levenshtein s [] = int (length s) \<and> levenshtein [] t = int (length t)"
proof -
  have k1: "levenshtein ''kitten'' ''sitting'' = 3" by code_simp
  have k2: "levenshtein '''' ''abc'' = 3" by code_simp
  have k3: "levenshtein ''abc'' ''abc'' = 0" by code_simp
  have right: "levenshtein u [] = int (length u)" for u
    by (subst levenshtein.simps) simp
  have left: "levenshtein [] t = int (length t)"
    by (subst levenshtein.simps) (simp add: right)
  from k1 k2 k3 right [of s] left show ?thesis by blast
qed

text \<open>
  C7 (round-trip persistence). Provided \<^verbatim>\<open>json.loads\<close> gives back the tree that
  \<^verbatim>\<open>json.dumps\<close> was given (a pair comes back as a two-element list, which \<open>Node\<close> does not
  tell apart): after \<open>save_to_file\<close> succeeds, \<open>load_from_file\<close> with the same path argument
  into any object with the same distance function succeeds and yields the saved tree,
  so \<open>query\<close> and \<open>find\<close> answer every call as they do on the saved object. For the tree
  built from book, books, cook, booze, cake with \<open>levenshtein\<close>, \<open>query("book", 1)\<close> is
  \<open>[(0, book), (1, books), (1, cook)]\<close> before and after.
\<close>

theorem save_load_roundtrip:
  assumes roundtrip: "\<forall>t. loads (dumps t) = Inr t"
    and saved: "save_to_file dumps T file_path fs = Inr fs'"
    and same_metric: "distance_func T' = distance_func T"
  shows "\<exists>L. load_from_file loads T' file_path fs' = Inr L \<and> tree L = tree T \<and>
           (\<forall>w n. fst (query L w n) = fst (query T w n) \<and>
                  fst (find_items L w n) = fst (find_items T w n)) \<and>
           (init levenshtein (ListWords book_words) = Inr T \<longrightarrow>
              fst (query L ''book'' 1) = Inr [(0, ''book''), (1, ''books''), (1, ''cook'')] \<and>
              fst (query T ''book'' 1) = Inr [(0, ''book''), (1, ''books''), (1, ''cook'')])"
proof -
  let ?p = "resolve_path file_path fs"
  from saved have fs': "fs' = fs\<lparr>files := (files fs)(?p \<mapsto> dumps (tree T))\<rparr>"
    by (auto simp: save_to_file_def Let_def split: if_splits)
  then have same_path: "resolve_path file_path fs' = ?p"
    by (simp add: resolve_path_def split: option.split)
  let ?L = "T'\<lparr>tree := tree T\<rparr>"
  have load: "load_from_file loads T' file_path fs' = Inr ?L"
    using roundtrip by (simp add: load_from_file_def same_path Let_def) (simp add: fs')
  have same: "fst (query ?L w n) = fst (query T w n) \<and>
      fst (find_items ?L w n) = fst (find_items T w n)" for w n
    using same_metric by (simp add: query_def find_items_def split: option.split)
  have five: "fst (query ?L ''book'' 1) = Inr [(0, ''book''), (1, ''books''), (1, ''cook'')] \<and>
      fst (query T ''book'' 1) = Inr [(0, ''book''), (1, ''books''), (1, ''cook'')]"
    if "init levenshtein (ListWords book_words) = Inr T"
  proof -
    from that have "T = five_tree" by (simp add: init_five)
    then have "fst (query T ''book'' 1) = Inr [(0, ''book''), (1, ''books''), (1, ''cook'')]"
      by (simp only: query_five)
    with same [of "''book''" 1] show ?thesis by simp
  qed
  from load same five show ?thesis by auto
qed

theorem save_load_roundtrip_witness:
  "\<exists>L. load_from_file Inr \<lparr>distance_func = levenshtein, tree = None\<rparr> None
          (scratch_fs\<lparr>files := [''/tmp/tree.json'' \<mapsto> tree five_tree]\<rparr>) = Inr L \<and>
       tree L = tree five_tree \<and>
       fst (query L ''book'' 1) = Inr [(0, ''book''), (1, ''books''), (1, ''cook'')] \<and>
       fst (query five_tree ''book'' 1) = Inr [(0, ''book''), (1, ''books''), (1, ''cook'')]"
proof -
  have roundtrip: "\<forall>t. Inr (id t) = (Inr t :: error + node option)" by simp
  have saved: "save_to_file id five_tree None scratch_fs
      = Inr (scratch_fs\<lparr>files := [''/tmp/tree.json'' \<mapsto> tree five_tree]\<rparr>)"
    by (simp add: save_to_file_def scratch_fs_def resolve_path_def path_join_def)
  have same_metric: "distance_func \<lparr>distance_func = levenshtein, tree = None\<rparr> = distance_func five_tree"
    by (simp add: five_tree_def)
  from save_load_roundtrip [where loads = Inr and dumps = id, OF roundtrip saved same_metric] init_five
  show ?thesis by blast
qed

text \<open>
  C8 (empty-source construction). The default argument and the empty list leave
  \<open>tree = None\<close>. An empty iterator is truthy, so the constructor calls \<^verbatim>\<open>next\<close> on it and
  StopIteration escapes.
\<close>

theorem init_empty_sources:
  "init df (ListWords []) = Inr \<lparr>distance_func = df, tree = None\<rparr> \<and>
   init df (IterWords []) = Inl StopIteration"
  by (simp add: init_def)

text \<open>
  C9 (queries are non-mutating): after \<open>query\<close> and after \<open>find\<close>, whatever their
  arguments and whether they return or raise, the object (the distance function, the
  root and every dict below it) is the one before the call.
\<close>

theorem query_find_leave_tree_unchanged:
  "snd (query self w n) = self \<and> snd (find_items self item m) = self"
  by (simp add: query_def find_items_def split: option.split)



end
